theory Spec2Isabelle
  imports Complex_Main
begin

section \<open>NumPy arrays and Python indexing\<close>

text \<open>
  A one-dimensional \<^verbatim>\<open>float64\<close> array is a list of reals: the arithmetic of the script is
  taken over exact real numbers, rounding is not part of the model, so nothing is stated
  here that holds of the exact values and only up to rounding of the computed ones (an
  equality between two entries computed from different sample points, for one). Python
  integers are \<^typ>\<open>int\<close>; an array length is a \<^typ>\<open>nat\<close>. Every exception the array
  operations can raise is a value of \<open>error\<close>, returned as \<open>Inl\<close>.
\<close>

datatype error = IndexError | ValueError | KeyError

text \<open>\<^verbatim>\<open>np.zeros(n)\<close> and \<^verbatim>\<open>np.zeros_like(a)\<close>.\<close>

definition zeros :: "nat \<Rightarrow> real list" where
  "zeros n = replicate n 0"

definition zeros_like :: "real list \<Rightarrow> real list" where
  "zeros_like a = zeros (length a)"

text \<open>
  An integer index into an array of length \<open>n\<close>: negative indices count from the end,
  anything outside \<open>[-n, n)\<close> raises \<^verbatim>\<open>IndexError\<close>.
\<close>

definition norm_index :: "nat \<Rightarrow> int \<Rightarrow> error + nat" where
  "norm_index n i =
     (if 0 \<le> i \<and> i < int n then Inr (nat i)
      else if - int n \<le> i \<and> i < 0 then Inr (nat (i + int n))
      else Inl IndexError)"

definition getitem :: "real list \<Rightarrow> int \<Rightarrow> error + real" where
  "getitem a i = (case norm_index (length a) i of Inl e \<Rightarrow> Inl e | Inr j \<Rightarrow> Inr (a ! j))"

text \<open>\<^verbatim>\<open>a[idx] = v\<close> for a list \<open>idx\<close> of integer indices and a scalar \<open>v\<close>.\<close>

fun put_indices :: "real list \<Rightarrow> int list \<Rightarrow> real \<Rightarrow> error + real list" where
  "put_indices a [] v = Inr a"
| "put_indices a (i # idx) v =
     (case norm_index (length a) i of
        Inl e \<Rightarrow> Inl e
      | Inr j \<Rightarrow> put_indices (a[j := v]) idx v)"

text \<open>
  A slice bound of \<^verbatim>\<open>a[lo:hi]\<close> (step 1): a negative bound counts from the end, and every
  bound is clipped into \<open>[0, n]\<close>; slicing never raises.
\<close>

definition slice_bound :: "nat \<Rightarrow> int \<Rightarrow> nat" where
  "slice_bound n i = (if i < 0 then nat (max 0 (i + int n)) else min (nat i) n)"

definition slice :: "'a list \<Rightarrow> int \<Rightarrow> int \<Rightarrow> 'a list" where
  "slice a lo hi =
     (let s = slice_bound (length a) lo; e = slice_bound (length a) hi
      in take (e - s) (drop s a))"

text \<open>\<^verbatim>\<open>a[lo:hi] = v\<close> for a scalar \<open>v\<close>.\<close>

definition slice_fill :: "real list \<Rightarrow> int \<Rightarrow> int \<Rightarrow> real \<Rightarrow> real list" where
  "slice_fill a lo hi v =
     (let s = slice_bound (length a) lo; e = slice_bound (length a) hi
      in take s a @ replicate (e - s) v @ drop (s + (e - s)) a)"

text \<open>
  \<^verbatim>\<open>a[lo:hi] = vs\<close> for an array \<open>vs\<close>: the shapes must agree, except that a one-element
  \<open>vs\<close> is broadcast; otherwise NumPy raises \<^verbatim>\<open>ValueError\<close>.
\<close>

definition slice_assign :: "real list \<Rightarrow> int \<Rightarrow> int \<Rightarrow> real list \<Rightarrow> error + real list" where
  "slice_assign a lo hi vs =
     (let s = slice_bound (length a) lo; e = slice_bound (length a) hi; m = e - s
      in if length vs = m then Inr (take s a @ vs @ drop (s + m) a)
         else if length vs = 1 then Inr (take s a @ replicate m (hd vs) @ drop (s + m) a)
         else Inl ValueError)"

text \<open>\<^verbatim>\<open>np.flip(a)\<close>, \<^verbatim>\<open>a.sum()\<close>, \<^verbatim>\<open>a / a.sum()\<close>, \<^verbatim>\<open>a * c\<close>.\<close>

definition flip :: "real list \<Rightarrow> real list" where
  "flip a = rev a"

definition normalize :: "real list \<Rightarrow> real list" where
  "normalize a = map (\<lambda>x. x / sum_list a) a"

definition scale :: "real list \<Rightarrow> real \<Rightarrow> real list" where
  "scale a c = map (\<lambda>x. x * c) a"

text \<open>
  \<^verbatim>\<open>np.linspace(start, stop, num)\<close> with the end point included: the samples are
  \<open>i * step + start\<close> with \<open>step = (stop - start) / (num - 1)\<close>, and the last sample is
  then overwritten with \<open>stop\<close>.
\<close>

definition linspace :: "real \<Rightarrow> real \<Rightarrow> nat \<Rightarrow> real list" where
  "linspace start stop num =
     (if num \<le> 1 then map (\<lambda>i. start) [0..<num]
      else (map (\<lambda>i. real i * ((stop - start) / real (num - 1)) + start) [0..<num])
             [num - 1 := stop])"

text \<open>\<^verbatim>\<open>np.arange(n)\<close>.\<close>

definition arange :: "nat \<Rightarrow> real list" where
  "arange n = map real [0..<n]"


section \<open>The data and kernel generator \<^verbatim>\<open>create_demo_data\<close>\<close>

definition kernel_size :: nat where
  "kernel_size = 15"

definition boxcar_size :: int where
  "boxcar_size = 9"

definition single_spikes :: "int list" where
  "single_spikes = [15, 35, 75]"

definition burst1 :: "int list" where
  "burst1 = [48, 50, 52]"

definition burst2 :: "int list" where
  "burst2 = [85, 87, 88, 90]"

definition signal :: "error + real list" where
  "signal =
     (case put_indices (zeros 100) single_spikes 1 of
        Inl e \<Rightarrow> Inl e
      | Inr s1 \<Rightarrow>
          (case put_indices s1 burst1 1 of
             Inl e \<Rightarrow> Inl e
           | Inr s2 \<Rightarrow> put_indices s2 burst2 1))"

definition boxcar :: "real list" where
  "boxcar = normalize (slice_fill (zeros kernel_size) 0 boxcar_size 1)"

definition kernel_x :: "real list" where
  "kernel_x = linspace (-2) 2 kernel_size"

definition gaussian :: "real list" where
  "gaussian = normalize (map (\<lambda>x. exp (- (x ^ 2))) kernel_x)"

definition exp_x :: "real list" where
  "exp_x = arange kernel_size"

definition exponential :: "real list" where
  "exponential = normalize (map (\<lambda>x. exp (- x / 3)) exp_x)"

text \<open>The dictionary \<^verbatim>\<open>kernels\<close>, in the order of the source.\<close>

definition kernels :: "(string \<times> real list) list" where
  "kernels =
     [(''Boxcar (Uniform)'', boxcar),
      (''Gaussian'', gaussian),
      (''Exponential (Calcium-like)'', exponential)]"

definition create_demo_data :: "error + (real list \<times> (string \<times> real list) list)" where
  "create_demo_data = (case signal of Inl e \<Rightarrow> Inl e | Inr s \<Rightarrow> Inr (s, kernels))"


section \<open>Same-mode discrete convolution\<close>

text \<open>
  \<^verbatim>\<open>np.convolve(a, v, mode="same")\<close>. The full convolution has \<open>length a + length v - 1\<close>
  entries, \<open>full[k] = \<Sum>j. a[j] * v[k - j]\<close>. NumPy swaps the arguments when \<open>v\<close> is the
  longer one, raises \<^verbatim>\<open>ValueError\<close> on an empty argument, and in mode \<^verbatim>\<open>same\<close> returns the
  centred part of the full convolution that is as long as the longer argument: with \<open>n\<close>
  the length of the shorter one it skips the first \<open>n - n div 2 - 1\<close> entries.
\<close>

definition convolve_full :: "real list \<Rightarrow> real list \<Rightarrow> real list" where
  "convolve_full a v =
     map (\<lambda>k. sum_list (map (\<lambda>j. if j \<le> k \<and> k - j < length v then a ! j * v ! (k - j) else 0)
                          [0..<length a]))
       [0..<length a + length v - 1]"

definition convolve_centred :: "real list \<Rightarrow> real list \<Rightarrow> error + real list" where
  "convolve_centred a v =
     (if length a = 0 then Inl ValueError
      else if length v = 0 then Inl ValueError
      else Inr (take (length a) (drop (length v - length v div 2 - 1) (convolve_full a v))))"

definition convolve_same :: "real list \<Rightarrow> real list \<Rightarrow> error + real list" where
  "convolve_same a v =
     (if length v > length a then convolve_centred v a else convolve_centred a v)"


section \<open>The animation renderer \<^verbatim>\<open>convolution_animation\<close>\<close>

text \<open>
  The plot artists the callback updates: the highlighted window is a rectangle with a
  lower-left corner and a size, a plotted line is its x and y data.
\<close>

record patch =
  patch_x :: int
  patch_y :: real
  patch_width :: int
  patch_height :: real

record line2d =
  xdata :: "int list"
  ydata :: "real list"

record artists =
  kernel_line :: line2d
  window_patch :: patch
  conv_line :: line2d
  current_point :: line2d

text \<open>
  What \<^verbatim>\<open>convolution_animation\<close> sets up and the callback \<^verbatim>\<open>animate\<close> closes over: the
  signal, the kernel, the convolution computed once, the artists as first drawn, and the
  number of frames handed to \<^verbatim>\<open>FuncAnimation\<close>.
\<close>

record animation =
  title :: string
  env_signal :: "real list"
  env_kernel :: "real list"
  convolution :: "real list"
  first_artists :: artists
  frames :: nat

text \<open>\<^verbatim>\<open>range(n)\<close>.\<close>

definition py_range :: "int \<Rightarrow> int list" where
  "py_range n = map int [0..<nat n]"

definition convolution_animation :: "string \<Rightarrow> real list \<Rightarrow> error + animation" where
  "convolution_animation kernel_name kern =
     (case create_demo_data of
        Inl e \<Rightarrow> Inl e
      | Inr (sig, _) \<Rightarrow>
          (case convolve_same sig kern of
             Inl e \<Rightarrow> Inl e
           | Inr conv \<Rightarrow>
               Inr \<lparr>title = ''Convolution with '' @ kernel_name @ '' Kernel'',
                    env_signal = sig,
                    env_kernel = kern,
                    convolution = conv,
                    first_artists =
                      \<lparr>kernel_line = \<lparr>xdata = [], ydata = []\<rparr>,
                       window_patch =
                         \<lparr>patch_x = 0, patch_y = - 0.2,
                          patch_width = int (length kern), patch_height = 1.7\<rparr>,
                       conv_line = \<lparr>xdata = [], ydata = []\<rparr>,
                       current_point = \<lparr>xdata = [], ydata = []\<rparr>\<rparr>,
                    frames = length sig\<rparr>))"

text \<open>
  The local variables of \<^verbatim>\<open>animate\<close> for the frame \<open>pos\<close>. In \<^verbatim>\<open>convolution_animation\<close> the
  name \<^verbatim>\<open>kernel_size\<close> is \<^verbatim>\<open>len(kernel)\<close>, written out here; \<^verbatim>\<open>//\<close> is floor division.
\<close>

definition window_start :: "animation \<Rightarrow> int \<Rightarrow> int" where
  "window_start a pos = max 0 (pos - int (length (env_kernel a)) div 2)"

definition kernel_start :: "animation \<Rightarrow> int \<Rightarrow> int" where
  "kernel_start a pos = max 0 (pos - int (length (env_kernel a)) div 2)"

definition kernel_end :: "animation \<Rightarrow> int \<Rightarrow> int" where
  "kernel_end a pos =
     min (int (length (env_signal a))) (pos + int (length (env_kernel a)) div 2 + 1)"

definition k_start :: "animation \<Rightarrow> int \<Rightarrow> int" where
  "k_start a pos = max 0 (int (length (env_kernel a)) div 2 - pos)"

definition k_end :: "animation \<Rightarrow> int \<Rightarrow> int" where
  "k_end a pos = k_start a pos + (kernel_end a pos - kernel_start a pos)"

definition positioned_kernel :: "animation \<Rightarrow> int \<Rightarrow> error + real list" where
  "positioned_kernel a pos =
     (if k_end a pos > k_start a pos
      then slice_assign (zeros_like (env_signal a)) (kernel_start a pos) (kernel_end a pos)
             (slice (flip (env_kernel a)) (k_start a pos) (k_end a pos))
      else Inr (zeros_like (env_signal a)))"

text \<open>
  The callback: it moves the window patch, redraws the positioned kernel (scaled by 1.2),
  reveals the convolution up to and including \<open>pos\<close> and marks the current point. The
  artists are updated in place in the source; here the updated artists are returned.
\<close>

definition animate :: "animation \<Rightarrow> artists \<Rightarrow> int \<Rightarrow> error + artists" where
  "animate a art frame =
     (let pos = frame;
          patch' = (window_patch art)\<lparr>patch_x := window_start a pos\<rparr>
      in case positioned_kernel a pos of
           Inl e \<Rightarrow> Inl e
         | Inr pk \<Rightarrow>
             (case getitem (convolution a) pos of
                Inl e \<Rightarrow> Inl e
              | Inr c \<Rightarrow>
                  Inr \<lparr>kernel_line =
                         \<lparr>xdata = py_range (int (length (env_signal a))), ydata = scale pk 1.2\<rparr>,
                       window_patch = patch',
                       conv_line =
                         \<lparr>xdata = py_range (pos + 1), ydata = slice (convolution a) 0 (pos + 1)\<rparr>,
                       current_point = \<lparr>xdata = [pos], ydata = [c]\<rparr>\<rparr>))"

text \<open>The right edge of the highlighted window: the patch's corner plus its width.\<close>

definition window_right :: "artists \<Rightarrow> int" where
  "window_right art = patch_x (window_patch art) + patch_width (window_patch art)"


text \<open>
  The positioned kernel at frame \<open>pos\<close> of the animation set up for a kernel: what frame
  \<open>pos\<close> of \<^verbatim>\<open>convolution_animation(kernel_name, kernel)\<close> builds in \<^verbatim>\<open>positioned_kernel\<close>.
\<close>

definition frame_kernel :: "string \<Rightarrow> real list \<Rightarrow> int \<Rightarrow> error + real list" where
  "frame_kernel kernel_name kern pos =
     (case convolution_animation kernel_name kern of
        Inl e \<Rightarrow> Inl e
      | Inr a \<Rightarrow> positioned_kernel a pos)"


section \<open>The command line\<close>

text \<open>
  The parser has the option \<^verbatim>\<open>--kernel\<close>/\<^verbatim>\<open>-k\<close>, required, with three choices, and
  \<^verbatim>\<open>argparse\<close>'s own \<^verbatim>\<open>-h\<close>/\<^verbatim>\<open>--help\<close>. The command line is taken after \<^verbatim>\<open>argparse\<close> has
  told options from other strings, whatever the spelling of an option: the kernel option
  with the string it was given, the kernel option with no argument after it, the help
  option, or a string the parser does not know. \<^verbatim>\<open>argparse\<close> handles them from left to
  right: help prints and exits with status 0 on the spot, a value outside the choices or
  a missing value is an error on the spot, unknown strings are collected; at the end a
  missing required option or a collected unknown string is an error. An error prints the
  usage and exits with status 2.
\<close>

datatype arg = KernelOpt string | KernelNoValue | HelpOpt | Unrecognized string

datatype parse_result = Namespace string | HelpExit | UsageError

definition choices :: "string list" where
  "choices = [''boxcar'', ''gaussian'', ''exponential'']"

fun parse_loop :: "string option \<Rightarrow> bool \<Rightarrow> arg list \<Rightarrow> parse_result" where
  "parse_loop chosen extras [] =
     (case chosen of
        None \<Rightarrow> UsageError
      | Some v \<Rightarrow> if extras then UsageError else Namespace v)"
| "parse_loop chosen extras (HelpOpt # rest) = HelpExit"
| "parse_loop chosen extras (KernelOpt v # rest) =
     (if v \<in> set choices then parse_loop (Some v) extras rest else UsageError)"
| "parse_loop chosen extras (KernelNoValue # rest) = UsageError"
| "parse_loop chosen extras (Unrecognized s # rest) = parse_loop chosen True rest"

definition parse_args :: "arg list \<Rightarrow> parse_result" where
  "parse_args argv = parse_loop None False argv"

definition kernel_map :: "(string \<times> string) list" where
  "kernel_map =
     [(''boxcar'', ''Boxcar (Uniform)''),
      (''gaussian'', ''Gaussian''),
      (''exponential'', ''Exponential (Calcium-like)'')]"

text \<open>
  The script's main block, as the exit status of the process and what it did, in order.
  An exception nobody catches ends the process with status 1.
\<close>

datatype event = PrintUsage | PrintHelp | CreateData | BuildAnimation | Show

definition main :: "arg list \<Rightarrow> int \<times> event list" where
  "main argv =
     (case parse_args argv of
        UsageError \<Rightarrow> (2, [PrintUsage])
      | HelpExit \<Rightarrow> (0, [PrintHelp])
      | Namespace kernel_arg \<Rightarrow>
          (case create_demo_data of
             Inl e \<Rightarrow> (1, [CreateData])
           | Inr (sig, ks) \<Rightarrow>
               (case map_of kernel_map kernel_arg of
                  None \<Rightarrow> (1, [CreateData])
                | Some kernel_name \<Rightarrow>
                    (case map_of ks kernel_name of
                       None \<Rightarrow> (1, [CreateData])
                     | Some kern \<Rightarrow>
                         (case convolution_animation kernel_name kern of
                            Inl e \<Rightarrow> (1, [CreateData, BuildAnimation])
                          | Inr anim \<Rightarrow> (0, [CreateData, BuildAnimation, Show]))))))"


section \<open>Properties of the generator\<close>

lemma signal_value:
  "signal =
     Inr (map (\<lambda>i. if i \<in> set [15, 35, 75, 48, 50, 52, 85, 87, 88, 90] then 1 else 0)
            [0..<100])"
  by code_simp

lemma signal_length: "signal = Inr s \<Longrightarrow> length s = 100"
  by (simp add: signal_value) auto

lemma boxcar_value: "boxcar = replicate 9 (1 / 9) @ replicate 6 0"
  by code_simp

lemma kernel_x_value:
  "kernel_x =
     [-2, -12/7, -10/7, -8/7, -6/7, -4/7, -2/7, 0, 2/7, 4/7, 6/7, 8/7, 10/7, 12/7, 2]"
  by code_simp

lemma exp_x_value: "exp_x = [0, 1, 2, 3, 4, 5, 6, 7, 8, 9, 10, 11, 12, 13, 14]"
  by code_simp

lemma length_normalize: "length (normalize a) = length a"
  by (simp add: normalize_def)

lemma sum_list_divide: "sum_list (map (\<lambda>x. x / c) a) = sum_list a / (c::real)"
  by (induction a) (simp_all add: add_divide_distrib)

lemma sum_list_normalize: "sum_list a \<noteq> 0 \<Longrightarrow> sum_list (normalize a) = 1"
  by (simp add: normalize_def sum_list_divide)

lemma sum_list_all_pos:
  "a \<noteq> [] \<Longrightarrow> list_all (\<lambda>x. 0 < x) a \<Longrightarrow> 0 < sum_list (a::real list)"
proof (induction a)
  case Nil
  then show ?case by simp
next
  case (Cons x xs)
  show ?case
  proof (cases "xs = []")
    case True
    with Cons.prems show ?thesis by simp
  next
    case False
    with Cons have "0 < sum_list xs" and "0 < x" by simp_all
    then show ?thesis by simp
  qed
qed

lemma sum_list_all_nonneg: "list_all (\<lambda>x. 0 \<le> x) a \<Longrightarrow> 0 \<le> sum_list (a::real list)"
  by (induction a) auto

lemma normalize_nonneg:
  "list_all (\<lambda>x. 0 \<le> x) a \<Longrightarrow> list_all (\<lambda>x. 0 \<le> x) (normalize a)"
  using sum_list_all_nonneg[of a] by (simp add: normalize_def list_all_iff)

lemma normalize_pos:
  "a \<noteq> [] \<Longrightarrow> list_all (\<lambda>x. 0 < x) a \<Longrightarrow> list_all (\<lambda>x. 0 < x) (normalize a)"
  using sum_list_all_pos[of a] by (simp add: normalize_def list_all_iff)

lemma sum_list_normalize_pos:
  assumes "a \<noteq> []" and "list_all (\<lambda>x. 0 < x) a"
  shows "sum_list (normalize a) = 1"
proof -
  have "0 < sum_list a" using assms by (rule sum_list_all_pos)
  then show ?thesis by (simp add: sum_list_normalize)
qed

lemma all_pos_nonneg: "list_all (\<lambda>x. 0 < x) a \<Longrightarrow> list_all (\<lambda>x. 0 \<le> x) (a::real list)"
  by (simp add: list_all_iff less_imp_le)

lemma boxcar_length: "length boxcar = 15"
  by (simp add: boxcar_value)

lemma boxcar_nonneg: "list_all (\<lambda>x. 0 \<le> x) boxcar"
  by (simp add: boxcar_value list_all_iff)

lemma boxcar_sum: "sum_list boxcar = 1"
  by (simp add: boxcar_value sum_list_replicate)

lemma gaussian_length: "length gaussian = 15"
  by (simp add: gaussian_def length_normalize kernel_x_value)

lemma gaussian_pos: "list_all (\<lambda>x. 0 < x) gaussian"
  unfolding gaussian_def by (rule normalize_pos) (simp_all add: kernel_x_value)

lemma gaussian_sum: "sum_list gaussian = 1"
  unfolding gaussian_def by (rule sum_list_normalize_pos) (simp_all add: kernel_x_value)

lemma exponential_length: "length exponential = 15"
  by (simp add: exponential_def length_normalize exp_x_value)

lemma exponential_pos: "list_all (\<lambda>x. 0 < x) exponential"
  unfolding exponential_def by (rule normalize_pos) (simp_all add: exp_x_value)

lemma exponential_sum: "sum_list exponential = 1"
  unfolding exponential_def by (rule sum_list_normalize_pos) (simp_all add: exp_x_value)


lemma create_demo_data_value:
  "create_demo_data =
     Inr (map (\<lambda>i. if i \<in> set [15, 35, 75, 48, 50, 52, 85, 87, 88, 90] then 1 else 0) [0..<100],
          kernels)"
  unfolding create_demo_data_def signal_value by (simp only: sum.case)

text \<open>
  C4: the generated signal has length 100; its nonzero entries are exactly the ten entries
  at the indices 15, 35, 75 (single spikes), 48, 50, 52 (first burst) and 85, 87, 88, 90
  (second burst), each of them is 1, and every other entry is 0.
\<close>

theorem signal_unit_impulses:
  "\<exists>s ks. create_demo_data = Inr (s, ks) \<and> length s = 100 \<and>
     s = map (\<lambda>i. if i \<in> set [15, 35, 75, 48, 50, 52, 85, 87, 88, 90] then 1 else 0) [0..<100] \<and>
     filter (\<lambda>i. s ! i \<noteq> 0) [0..<100] = [15, 35, 48, 50, 52, 75, 85, 87, 88, 90] \<and>
     filter (\<lambda>x. x \<noteq> 0) s = replicate 10 1 \<and>
     length (filter (\<lambda>x. x = 0) s) = 90"
proof -
  define s :: "real list"
    where "s = map (\<lambda>i. if i \<in> set [15, 35, 75, 48, 50, 52, 85, 87, 88, 90] then 1 else 0) [0..<100]"
  have "create_demo_data = Inr (s, kernels)"
    unfolding s_def by (rule create_demo_data_value)
  moreover have "length s = 100"
    unfolding s_def by simp
  moreover have "filter (\<lambda>i. s ! i \<noteq> 0) [0..<100] = [15, 35, 48, 50, 52, 75, 85, 87, 88, 90]"
    unfolding s_def by code_simp
  moreover have "filter (\<lambda>x. x \<noteq> 0) s = replicate 10 1"
    unfolding s_def by code_simp
  moreover have "length (filter (\<lambda>x. x = 0) s) = 90"
    unfolding s_def by code_simp
  ultimately show ?thesis
    by (intro exI[of _ s] exI[of _ kernels] conjI) (simp_all only: s_def)
qed

text \<open>
  C5: the boxcar kernel the generator returns under the name \<open>Boxcar (Uniform)\<close> has 15
  elements; its first 9 elements are equal to one another and nonzero (each is 1/9), its
  remaining 6 elements are 0, and its elements sum to 1.
\<close>

theorem boxcar_kernel_shape:
  "\<exists>s ks k. create_demo_data = Inr (s, ks) \<and> map_of ks ''Boxcar (Uniform)'' = Some k \<and>
     length k = 15 \<and> take 9 k = replicate 9 (1 / 9) \<and> (1 / 9 :: real) \<noteq> 0 \<and>
     drop 9 k = replicate 6 0 \<and> sum_list k = 1"
proof -
  have "map_of kernels ''Boxcar (Uniform)'' = Some boxcar"
    by (simp add: kernels_def)
  moreover have "take 9 boxcar = replicate 9 (1 / 9)" "drop 9 boxcar = replicate 6 0"
    by (simp_all add: boxcar_value)
  moreover have "(1 / 9 :: real) \<noteq> 0"
    by simp
  ultimately show ?thesis
    using create_demo_data_value boxcar_length boxcar_sum
    by (intro exI[of _ boxcar] exI[of _ kernels]
        exI[of _ "map (\<lambda>i. if i \<in> set [15, 35, 75, 48, 50, 52, 85, 87, 88, 90] then 1 else 0) [0..<100]"]
        conjI)
qed

text \<open>
  C3: each of the three kernels the generator returns (boxcar, Gaussian, exponential) is a
  vector of length 15 with non-negative entries whose elements sum to 1, the arithmetic
  taken over the reals.
\<close>

theorem kernels_normalized:
  "\<exists>s ks. create_demo_data = Inr (s, ks) \<and>
     map fst ks = [''Boxcar (Uniform)'', ''Gaussian'', ''Exponential (Calcium-like)''] \<and>
     map snd ks = [boxcar, gaussian, exponential] \<and>
     list_all (\<lambda>k. length k = 15 \<and> list_all (\<lambda>x. 0 \<le> x) k \<and> sum_list k = 1) (map snd ks)"
proof -
  have "map fst kernels = [''Boxcar (Uniform)'', ''Gaussian'', ''Exponential (Calcium-like)'']"
    and "map snd kernels = [boxcar, gaussian, exponential]"
    by (simp_all add: kernels_def)
  moreover have "list_all (\<lambda>k. length k = 15 \<and> list_all (\<lambda>x. 0 \<le> x) k \<and> sum_list k = 1)
                   (map snd kernels)"
    by (simp add: kernels_def boxcar_length boxcar_nonneg boxcar_sum
        gaussian_length gaussian_sum all_pos_nonneg[OF gaussian_pos]
        exponential_length exponential_sum all_pos_nonneg[OF exponential_pos])
  ultimately show ?thesis
    using create_demo_data_value
    by (intro exI[of _ kernels]
        exI[of _ "map (\<lambda>i. if i \<in> set [15, 35, 75, 48, 50, 52, 85, 87, 88, 90] then 1 else 0) [0..<100]"]
        conjI)
qed


section \<open>Properties of the convolution and of the animation callback\<close>

lemma length_convolve_full: "length (convolve_full a v) = length a + length v - 1"
  by (simp add: convolve_full_def)

lemma length_convolve_centred:
  assumes "convolve_centred a v = Inr c"
  shows "length c = length a"
proof -
  from assms have ne: "length a \<noteq> 0" "length v \<noteq> 0"
    and c: "c = take (length a) (drop (length v - length v div 2 - 1) (convolve_full a v))"
    by (auto simp: convolve_centred_def split: if_splits)
  have "length v - length v div 2 - 1 \<le> length v - 1"
    by simp
  with ne have "length a \<le> length a + length v - 1 - (length v - length v div 2 - 1)"
    by linarith
  then show ?thesis
    by (simp add: c length_convolve_full)
qed

lemma length_convolve_same:
  "convolve_same a v = Inr c \<Longrightarrow> length c = max (length a) (length v)"
  by (auto simp: convolve_same_def dest: length_convolve_centred split: if_splits)

lemma convolve_same_Inr:
  "a \<noteq> [] \<Longrightarrow> v \<noteq> [] \<Longrightarrow> \<exists>c. convolve_same a v = Inr c"
  by (simp add: convolve_same_def convolve_centred_def)

lemma convolution_animation_fields:
  assumes "convolution_animation n k = Inr a"
  shows "signal = Inr (env_signal a)" and "env_kernel a = k"
    and "convolve_same (env_signal a) k = Inr (convolution a)"
    and "window_patch (first_artists a) =
           \<lparr>patch_x = 0, patch_y = - 0.2, patch_width = int (length k), patch_height = 1.7\<rparr>"
    and "frames a = length (env_signal a)"
  using assms
  by (auto simp: convolution_animation_def create_demo_data_def split: sum.splits prod.splits)

lemma convolution_animation_lengths:
  assumes "convolution_animation n k = Inr a" and "length k \<le> 100"
  shows "length (env_signal a) = 100" and "length (convolution a) = 100" and "frames a = 100"
proof -
  show s: "length (env_signal a) = 100"
    using convolution_animation_fields(1)[OF assms(1)] by (simp add: signal_length)
  show "length (convolution a) = 100"
    using length_convolve_same[OF convolution_animation_fields(3)[OF assms(1)]] s assms(2)
    by simp
  show "frames a = 100"
    using convolution_animation_fields(5)[OF assms(1)] s by simp
qed

lemma convolution_animation_Inr:
  assumes "k \<noteq> []"
  shows "\<exists>a. convolution_animation n k = Inr a"
proof -
  obtain s where s: "signal = Inr s" and "length s = 100"
    using signal_value signal_length by blast
  then have "s \<noteq> []" by auto
  with assms obtain c where c: "convolve_same s k = Inr c"
    using convolve_same_Inr by blast
  show ?thesis
    unfolding convolution_animation_def create_demo_data_def s by (simp add: c)
qed

lemma slice_bound_nonneg: "0 \<le> i \<Longrightarrow> slice_bound n i = min (nat i) n"
  by (simp add: slice_bound_def)

lemma locals_15_100:
  assumes "length (env_signal a) = 100" "length (env_kernel a) = 15"
  shows "window_start a pos = max 0 (pos - 7)" "kernel_start a pos = max 0 (pos - 7)"
    and "kernel_end a pos = min 100 (pos + 8)" and "k_start a pos = max 0 (7 - pos)"
    and "k_end a pos = max 0 (7 - pos) + (min 100 (pos + 8) - max 0 (pos - 7))"
  using assms
  by (simp_all add: window_start_def kernel_start_def kernel_end_def k_start_def k_end_def)

lemma positioned_kernel_shape:
  assumes len: "length (env_signal a) = 100" "length (env_kernel a) = 15"
    and pos: "0 \<le> pos" "pos < 100"
  shows "positioned_kernel a pos =
           Inr (replicate (nat (kernel_start a pos)) 0 @
                take (nat (kernel_end a pos - kernel_start a pos))
                  (drop (nat (k_start a pos)) (rev (env_kernel a))) @
                replicate (100 - nat (kernel_end a pos)) 0)"
proof -
  consider "pos < 7" | "7 \<le> pos" "pos \<le> 92" | "92 < pos" by linarith
  then show ?thesis
  proof cases
    case 1
    with pos len show ?thesis
      by (simp add: positioned_kernel_def locals_15_100[OF len] slice_assign_def slice_def
          slice_bound_nonneg zeros_like_def zeros_def flip_def Let_def nat_diff_distrib nat_add_distrib)
  next
    case 2
    with pos len show ?thesis
      by (simp add: positioned_kernel_def locals_15_100[OF len] slice_assign_def slice_def
          slice_bound_nonneg zeros_like_def zeros_def flip_def Let_def nat_diff_distrib nat_add_distrib)
  next
    case 3
    with pos len show ?thesis
      by (simp add: positioned_kernel_def locals_15_100[OF len] slice_assign_def slice_def
          slice_bound_nonneg zeros_like_def zeros_def flip_def Let_def nat_diff_distrib nat_add_distrib)
  qed
qed

lemma positioned_kernel_nth:
  assumes len: "length (env_signal a) = 100" "length (env_kernel a) = 15"
    and pos: "0 \<le> pos" "pos < 100" and pk: "positioned_kernel a pos = Inr pk" and i: "i < 100"
  shows "pk ! i = (if kernel_start a pos \<le> int i \<and> int i < kernel_end a pos
                   then rev (env_kernel a) ! nat (k_start a pos + (int i - kernel_start a pos))
                   else 0)"
proof -
  obtain p where p: "pos = int p" using pos(1) nonneg_int_cases by blast
  consider "p < 7" | "7 \<le> p" "p \<le> 92" | "92 < p" by linarith
  then show ?thesis
  proof cases
    case 1
    with pos len i p pk[unfolded positioned_kernel_shape[OF len pos]] show ?thesis
      by (auto simp add: locals_15_100[OF len] nth_append nat_diff_distrib nat_add_distrib)
  next
    case 2
    with pos len i p pk[unfolded positioned_kernel_shape[OF len pos]] show ?thesis
      by (auto simp add: locals_15_100[OF len] nth_append nat_diff_distrib nat_add_distrib)
  next
    case 3
    with pos len i p pk[unfolded positioned_kernel_shape[OF len pos]] show ?thesis
      by (auto simp add: locals_15_100[OF len] nth_append nat_diff_distrib nat_add_distrib)
  qed
qed

lemma positioned_kernel_length:
  assumes len: "length (env_signal a) = 100" "length (env_kernel a) = 15"
    and pos: "0 \<le> pos" "pos < 100" and pk: "positioned_kernel a pos = Inr pk"
  shows "length pk = 100"
proof -
  consider "pos < 7" | "7 \<le> pos" "pos \<le> 92" | "92 < pos" by linarith
  then show ?thesis
  proof cases
    case 1
    with pos len pk[unfolded positioned_kernel_shape[OF len pos]] show ?thesis
      by (auto simp add: locals_15_100[OF len])
  next
    case 2
    with pos len pk[unfolded positioned_kernel_shape[OF len pos]] show ?thesis
      by (auto simp add: locals_15_100[OF len])
  next
    case 3
    with pos len pk[unfolded positioned_kernel_shape[OF len pos]] show ?thesis
      by (auto simp add: locals_15_100[OF len])
  qed
qed

lemma animate_value:
  assumes "positioned_kernel a pos = Inr pk" and "0 \<le> pos" and "pos < int (length (convolution a))"
  shows "animate a art pos =
           Inr \<lparr>kernel_line =
                  \<lparr>xdata = py_range (int (length (env_signal a))), ydata = scale pk 1.2\<rparr>,
                window_patch = (window_patch art)\<lparr>patch_x := window_start a pos\<rparr>,
                conv_line =
                  \<lparr>xdata = py_range (pos + 1), ydata = slice (convolution a) 0 (pos + 1)\<rparr>,
                current_point = \<lparr>xdata = [pos], ydata = [convolution a ! nat pos]\<rparr>\<rparr>"
  using assms by (simp add: animate_def getitem_def norm_index_def Let_def)

lemma positioned_kernel_interior:
  assumes len: "length (env_signal a) = 100" "length (env_kernel a) = 15"
    and pos: "7 \<le> pos" "pos \<le> 92" and pk: "positioned_kernel a pos = Inr pk"
  shows "slice pk (pos - 7) (pos + 8) = rev (env_kernel a)"
proof -
  have p: "0 \<le> pos" "pos < 100" using pos by simp_all
  from pos len pk[unfolded positioned_kernel_shape[OF len p]] show ?thesis
    by (auto simp add: locals_15_100[OF len] slice_def slice_bound_nonneg Let_def
        nat_diff_distrib nat_add_distrib)
qed

text \<open>
  C1: at every frame \<open>pos\<close> in \<open>[0, 100)\<close> the callback puts the left edge of the highlighted
  window at \<open>max 0 (pos - 7)\<close> and leaves its width at 15, so the window is
  \<open>[pos - 7, pos - 7 + 15)\<close> with its start clamped at the left edge of the signal and its
  right edge never clamped: at frame 0 the window starts at 0, for every frame after 92 the
  right edge lies beyond the length of the signal, and at frame 99 it is 107.
\<close>

theorem window_clamped_left_only:
  assumes "convolution_animation n k = Inr a" and "length k = 15"
    and "0 \<le> pos" and "pos < 100"
    and "patch_width (window_patch art) = patch_width (window_patch (first_artists a))"
  shows "\<exists>art'. animate a art pos = Inr art' \<and>
           patch_x (window_patch art') = max 0 (pos - 7) \<and>
           patch_width (window_patch art') = 15 \<and>
           patch_width (window_patch art') = patch_width (window_patch (first_artists a)) \<and>
           window_right art' = max 0 (pos - 7) + 15 \<and>
           (7 \<le> pos \<longrightarrow> patch_x (window_patch art') = pos - 7 \<and> window_right art' = pos - 7 + 15) \<and>
           (pos = 0 \<longrightarrow> patch_x (window_patch art') = 0) \<and>
           (92 < pos \<longrightarrow> int (length (env_signal a)) < window_right art') \<and>
           (pos = 99 \<longrightarrow> window_right art' = 107)"
proof -
  have k: "env_kernel a = k" and w: "patch_width (window_patch (first_artists a)) = 15"
    using convolution_animation_fields(2,4)[OF assms(1)] assms(2) by simp_all
  have len: "length (env_signal a) = 100" "length (env_kernel a) = 15"
    and conv: "length (convolution a) = 100"
    using convolution_animation_lengths[OF assms(1)] assms(2) k by simp_all
  obtain pk where pk: "positioned_kernel a pos = Inr pk"
    using positioned_kernel_shape[OF len assms(3,4)] by blast
  have "pos < int (length (convolution a))" using conv assms(4) by simp
  note av = animate_value[OF pk assms(3) this, of art]
  show ?thesis
    using assms(3,4,5) w len
    by (simp add: av window_right_def locals_15_100[OF len])
qed


text \<open>The first and the last frame of the boxcar animation.\<close>

theorem window_clamped_left_only_witness:
  "\<exists>a art0 art99.
     convolution_animation ''Boxcar (Uniform)'' boxcar = Inr a \<and> length boxcar = 15 \<and>
     animate a (first_artists a) 0 = Inr art0 \<and> patch_x (window_patch art0) = 0 \<and>
     window_right art0 = 15 \<and>
     animate a (first_artists a) 99 = Inr art99 \<and> patch_x (window_patch art99) = 92 \<and>
     window_right art99 = 107 \<and> int (length (env_signal a)) < 107"
proof -
  obtain a where a: "convolution_animation ''Boxcar (Uniform)'' boxcar = Inr a"
    using convolution_animation_Inr[of boxcar] boxcar_length by fastforce
  obtain art0 where "animate a (first_artists a) 0 = Inr art0"
    and "patch_x (window_patch art0) = 0" and "window_right art0 = 15"
    using window_clamped_left_only[OF a boxcar_length, of 0 "first_artists a"] by auto
  moreover obtain art99 where "animate a (first_artists a) 99 = Inr art99"
    and "patch_x (window_patch art99) = 92" and "window_right art99 = 107"
    and "int (length (env_signal a)) < 107"
    using window_clamped_left_only[OF a boxcar_length, of 99 "first_artists a"] by auto
  ultimately show ?thesis
    using a boxcar_length by blast
qed

text \<open>
  C2: at every frame \<open>pos\<close> in \<open>[0, 100)\<close> the positioned kernel is a vector as long as the
  signal (100). At each index of the clamped window \<open>[kernel_start, kernel_end)\<close> it holds
  the entry of the reversed kernel that falls there, which is \<open>k[pos + 7 - i]\<close> at index
  \<open>i\<close>; at every index outside the window it is 0. When the window lies inside the signal
  the entries of the window are the whole reversed kernel. The callback draws this vector
  scaled by 1.2.
\<close>

theorem positioned_kernel_reversed:
  assumes "convolution_animation n k = Inr a" and "length k = 15"
    and "0 \<le> pos" and "pos < 100"
  shows "\<exists>pk. positioned_kernel a pos = Inr pk \<and>
           length pk = length (env_signal a) \<and> length pk = 100 \<and>
           kernel_start a pos = max 0 (pos - 7) \<and> kernel_end a pos = min 100 (pos + 8) \<and>
           (\<forall>i<100. pk ! i =
              (if kernel_start a pos \<le> int i \<and> int i < kernel_end a pos
               then flip k ! nat (k_start a pos + (int i - kernel_start a pos))
               else 0)) \<and>
           (\<forall>i<100. kernel_start a pos \<le> int i \<and> int i < kernel_end a pos \<longrightarrow>
              pk ! i = k ! nat (pos + 7 - int i)) \<and>
           (7 \<le> pos \<and> pos \<le> 92 \<longrightarrow> slice pk (pos - 7) (pos + 8) = flip k) \<and>
           (\<exists>art'. animate a art pos = Inr art' \<and> ydata (kernel_line art') = scale pk 1.2)"
proof -
  have k: "env_kernel a = k"
    using convolution_animation_fields(2)[OF assms(1)] .
  have len: "length (env_signal a) = 100" "length (env_kernel a) = 15"
    and conv: "length (convolution a) = 100"
    using convolution_animation_lengths[OF assms(1)] assms(2) k by simp_all
  obtain pk where pk: "positioned_kernel a pos = Inr pk"
    using positioned_kernel_shape[OF len assms(3,4)] by blast
  have lpk: "length pk = 100"
    using positioned_kernel_length[OF len assms(3,4) pk] .
  have nth: "pk ! i =
              (if kernel_start a pos \<le> int i \<and> int i < kernel_end a pos
               then flip k ! nat (k_start a pos + (int i - kernel_start a pos))
               else 0)" if "i < 100" for i
    using positioned_kernel_nth[OF len assms(3,4) pk that] by (simp add: k flip_def)
  have nth': "pk ! i = k ! nat (pos + 7 - int i)"
    if "i < 100" and "kernel_start a pos \<le> int i" and "int i < kernel_end a pos" for i
  proof -
    from that(2,3) assms(3,4)
    have j: "nat (k_start a pos + (int i - kernel_start a pos)) < 15"
      and e: "14 - nat (k_start a pos + (int i - kernel_start a pos)) = nat (pos + 7 - int i)"
      by (auto simp add: locals_15_100[OF len])
    from j have "rev k ! nat (k_start a pos + (int i - kernel_start a pos)) =
                 k ! (14 - nat (k_start a pos + (int i - kernel_start a pos)))"
      by (simp add: rev_nth assms(2))
    with nth[OF that(1)] that(2,3) e show ?thesis
      by (simp add: flip_def)
  qed
  have inner: "slice pk (pos - 7) (pos + 8) = flip k" if "7 \<le> pos" "pos \<le> 92"
    using positioned_kernel_interior[OF len that pk] by (simp add: k flip_def)
  have "pos < int (length (convolution a))" using conv assms(4) by simp
  note av = animate_value[OF pk assms(3) this, of art]
  have "\<exists>art'. animate a art pos = Inr art' \<and> ydata (kernel_line art') = scale pk 1.2"
    by (simp add: av)
  with pk lpk len nth nth' inner show ?thesis
    by (auto simp add: locals_15_100[OF len])
qed


text \<open>Frame 50 of the boxcar animation.\<close>

theorem positioned_kernel_reversed_witness:
  "\<exists>a pk. convolution_animation ''Boxcar (Uniform)'' boxcar = Inr a \<and> length boxcar = 15 \<and>
     positioned_kernel a 50 = Inr pk \<and> length pk = 100 \<and>
     slice pk 43 58 = flip boxcar \<and> pk ! 42 = 0 \<and> pk ! 43 = boxcar ! 14 \<and> pk ! 58 = 0"
proof -
  obtain a where a: "convolution_animation ''Boxcar (Uniform)'' boxcar = Inr a"
    using convolution_animation_Inr[of boxcar] boxcar_length by fastforce
  have p: "(0::int) \<le> 50" "(50::int) < 100" by simp_all
  obtain pk where pk: "positioned_kernel a 50 = Inr pk" and lpk: "length pk = 100"
    and ks: "kernel_start a 50 = max 0 (50 - 7)" and ke: "kernel_end a 50 = min 100 (50 + 8)"
    and nth: "\<forall>i<100. pk ! i =
              (if kernel_start a 50 \<le> int i \<and> int i < kernel_end a 50
               then flip boxcar ! nat (k_start a 50 + (int i - kernel_start a 50))
               else 0)"
    and nth': "\<forall>i<100. kernel_start a 50 \<le> int i \<and> int i < kernel_end a 50 \<longrightarrow>
              pk ! i = boxcar ! nat (50 + 7 - int i)"
    and inner: "7 \<le> (50::int) \<and> (50::int) \<le> 92 \<longrightarrow> slice pk (50 - 7) (50 + 8) = flip boxcar"
    using positioned_kernel_reversed[OF a boxcar_length p, of "first_artists a"]
    by (elim exE conjE) (rule that, assumption+)
  have "slice pk 43 58 = flip boxcar" using inner by simp
  moreover have "pk ! 42 = 0" using nth[rule_format, of 42] ks ke by simp
  moreover have "pk ! 58 = 0" using nth[rule_format, of 58] ks ke by simp
  moreover have "pk ! 43 = boxcar ! 14" using nth'[rule_format, of 43] ks ke by simp
  ultimately show ?thesis
    using a boxcar_length pk lpk by blast
qed

text \<open>
  C6: for each of the three kernels the same-mode convolution of the signal with the kernel
  is defined and has the length of the signal, 100; so has the convolution stored by
  \<^verbatim>\<open>convolution_animation\<close>.
\<close>

theorem convolution_output_length:
  "\<exists>s ks. create_demo_data = Inr (s, ks) \<and> length s = 100 \<and> length ks = 3 \<and>
     list_all (\<lambda>(name, k). \<exists>c. convolve_same s k = Inr c \<and> length c = length s) ks \<and>
     list_all (\<lambda>(name, k). \<exists>a. convolution_animation name k = Inr a \<and>
                 length (convolution a) = length (env_signal a) \<and>
                 length (convolution a) = 100) ks"
proof -
  obtain s where s: "signal = Inr s" and ls: "length s = 100"
    using signal_value signal_length by blast
  have cd: "create_demo_data = Inr (s, kernels)"
    unfolding create_demo_data_def s by simp
  have one: "\<exists>c. convolve_same s k = Inr c \<and> length c = length s" if "length k = 15" for k
  proof -
    from that ls have "s \<noteq> []" "k \<noteq> []" by auto
    then obtain c where c: "convolve_same s k = Inr c"
      using convolve_same_Inr by blast
    with length_convolve_same[OF c] that ls show ?thesis by simp
  qed
  have two: "\<exists>a. convolution_animation name k = Inr a \<and>
                length (convolution a) = length (env_signal a) \<and> length (convolution a) = 100"
    if "length k = 15" for name k
  proof -
    from that have "k \<noteq> []" by auto
    then obtain a where a: "convolution_animation name k = Inr a"
      using convolution_animation_Inr by blast
    with convolution_animation_lengths[OF a] that show ?thesis by simp
  qed
  have "list_all (\<lambda>(name, k). \<exists>c. convolve_same s k = Inr c \<and> length c = length s) kernels"
    by (simp add: kernels_def one boxcar_length gaussian_length exponential_length)
  moreover have "list_all (\<lambda>(name, k). \<exists>a. convolution_animation name k = Inr a \<and>
                 length (convolution a) = length (env_signal a) \<and>
                 length (convolution a) = 100) kernels"
    by (simp add: kernels_def two boxcar_length gaussian_length exponential_length)
  moreover have "length kernels = 3"
    by (simp add: kernels_def)
  ultimately show ?thesis
    using cd ls by (intro exI[of _ s] exI[of _ kernels] conjI)
qed

text \<open>
  C9: at every frame \<open>pos\<close> in \<open>[0, 100)\<close> the bounds the callback computes are in range,
  \<open>0 \<le> kernel_start \<le> kernel_end \<le> 100\<close> and \<open>0 \<le> k_start \<le> k_end \<le> 15\<close> with
  \<open>k_end - k_start = kernel_end - kernel_start\<close>, the convolution is read at an index below
  its length, and the callback returns: neither the slice assignment nor the indexing
  raises.
\<close>

theorem animate_in_bounds:
  assumes "convolution_animation n k = Inr a" and "length k = 15"
    and "0 \<le> pos" and "pos < 100"
  shows "0 \<le> kernel_start a pos \<and> kernel_start a pos \<le> kernel_end a pos \<and>
         kernel_end a pos \<le> 100 \<and> kernel_end a pos \<le> int (length (env_signal a)) \<and>
         0 \<le> k_start a pos \<and> k_start a pos \<le> k_end a pos \<and> k_end a pos \<le> 15 \<and>
         k_end a pos \<le> int (length (env_kernel a)) \<and>
         k_end a pos - k_start a pos = kernel_end a pos - kernel_start a pos \<and>
         pos < int (length (convolution a)) \<and>
         (\<exists>c. getitem (convolution a) pos = Inr c) \<and>
         (\<exists>pk. positioned_kernel a pos = Inr pk) \<and>
         (\<exists>art'. animate a art pos = Inr art')"
proof -
  have k: "env_kernel a = k"
    using convolution_animation_fields(2)[OF assms(1)] .
  have len: "length (env_signal a) = 100" "length (env_kernel a) = 15"
    and conv: "length (convolution a) = 100"
    using convolution_animation_lengths[OF assms(1)] assms(2) k by simp_all
  obtain pk where pk: "positioned_kernel a pos = Inr pk"
    using positioned_kernel_shape[OF len assms(3,4)] by blast
  have lt: "pos < int (length (convolution a))" using conv assms(4) by simp
  note av = animate_value[OF pk assms(3) lt, of art]
  have "\<exists>c. getitem (convolution a) pos = Inr c"
    using assms(3) lt by (simp add: getitem_def norm_index_def)
  with assms(3,4) pk lt len show ?thesis
    by (simp add: av locals_15_100[OF len])
qed

text \<open>The bounds at the last and the first frame of the Gaussian animation.\<close>

theorem animate_in_bounds_witness:
  "\<exists>a art'. convolution_animation ''Gaussian'' gaussian = Inr a \<and> length gaussian = 15 \<and>
     kernel_start a 99 = 92 \<and> kernel_end a 99 = 100 \<and> k_start a 99 = 0 \<and> k_end a 99 = 8 \<and>
     kernel_start a 0 = 0 \<and> kernel_end a 0 = 8 \<and> k_start a 0 = 7 \<and> k_end a 0 = 15 \<and>
     animate a (first_artists a) 99 = Inr art'"
proof -
  obtain a where a: "convolution_animation ''Gaussian'' gaussian = Inr a"
    using convolution_animation_Inr[of gaussian] gaussian_length by fastforce
  have k: "env_kernel a = gaussian"
    using convolution_animation_fields(2)[OF a] .
  have len: "length (env_signal a) = 100" "length (env_kernel a) = 15"
    using convolution_animation_lengths[OF a] gaussian_length k by simp_all
  obtain art' where "animate a (first_artists a) 99 = Inr art'"
    using animate_in_bounds[OF a gaussian_length, of 99 "first_artists a"] by auto
  then show ?thesis
    using a gaussian_length by (simp add: locals_15_100[OF len])
qed


section \<open>The mass of the positioned kernel\<close>

lemma sum_list_slice_le:
  assumes "list_all (\<lambda>x. 0 \<le> x) (xs::real list)"
  shows "sum_list (take m (drop j xs)) \<le> sum_list xs"
proof -
  have "sum_list xs = sum_list (take j xs) + sum_list (drop j xs)"
    by (metis append_take_drop_id sum_list_append)
  moreover have "sum_list (drop j xs) =
      sum_list (take m (drop j xs)) + sum_list (drop m (drop j xs))"
    by (metis append_take_drop_id sum_list_append)
  moreover have "0 \<le> sum_list (take j xs)" "0 \<le> sum_list (drop m (drop j xs))"
    using assms by (auto intro!: sum_list_nonneg simp: list_all_iff dest: in_set_takeD in_set_dropD)
  ultimately show ?thesis by linarith
qed

lemma sum_list_drop_less:
  assumes "list_all (\<lambda>x. 0 < x) (xs::real list)" and "0 < j" and "xs \<noteq> []"
  shows "sum_list (drop j xs) < sum_list xs"
proof -
  have "sum_list xs = sum_list (take j xs) + sum_list (drop j xs)"
    by (metis append_take_drop_id sum_list_append)
  moreover have "0 < sum_list (take j xs)"
    using assms by (intro sum_list_all_pos) (auto simp: list_all_iff dest: in_set_takeD)
  ultimately show ?thesis by linarith
qed

lemma sum_list_take_less:
  assumes "list_all (\<lambda>x. 0 < x) (xs::real list)" and "m < length xs"
  shows "sum_list (take m xs) < sum_list xs"
proof -
  have "sum_list xs = sum_list (take m xs) + sum_list (drop m xs)"
    by (metis append_take_drop_id sum_list_append)
  moreover have "0 < sum_list (drop m xs)"
    using assms by (intro sum_list_all_pos) (auto simp: list_all_iff dest: in_set_dropD)
  ultimately show ?thesis by linarith
qed

lemma positioned_kernel_regions:
  assumes len: "length (env_signal a) = 100" "length (env_kernel a) = 15"
    and pos: "0 \<le> pos" "pos < 100"
  shows "pos < 7 \<Longrightarrow> positioned_kernel a pos =
           Inr (drop (nat (7 - pos)) (rev (env_kernel a)) @ replicate (nat (92 - pos)) 0)"
    and "7 \<le> pos \<Longrightarrow> pos \<le> 92 \<Longrightarrow> positioned_kernel a pos =
           Inr (replicate (nat (pos - 7)) 0 @ rev (env_kernel a) @ replicate (nat (92 - pos)) 0)"
    and "92 < pos \<Longrightarrow> positioned_kernel a pos =
           Inr (replicate (nat (pos - 7)) 0 @ take (nat (107 - pos)) (rev (env_kernel a)))"
  using pos len
  by (simp_all add: positioned_kernel_shape[OF len pos] locals_15_100[OF len]
      nat_diff_distrib nat_add_distrib)


lemma sum_list_zeros: "sum_list (replicate n (0::real)) = 0"
  by (simp add: sum_list_replicate)

lemma positioned_kernel_nonneg_le:
  assumes len: "length (env_signal a) = 100" "length (env_kernel a) = 15"
    and pos: "0 \<le> pos" "pos < 100" and nn: "list_all (\<lambda>x. 0 \<le> x) (env_kernel a)"
    and pk: "positioned_kernel a pos = Inr pk"
  shows "list_all (\<lambda>x. 0 \<le> x) pk" and "sum_list pk \<le> sum_list (env_kernel a)"
proof -
  let ?mid = "take (nat (kernel_end a pos - kernel_start a pos))
                (drop (nat (k_start a pos)) (rev (env_kernel a)))"
  have shape: "pk = replicate (nat (kernel_start a pos)) 0 @ ?mid @
                replicate (100 - nat (kernel_end a pos)) 0"
    using pk positioned_kernel_shape[OF len pos] by simp
  have rnn: "list_all (\<lambda>x. 0 \<le> x) (rev (env_kernel a))"
    using nn by (simp add: list_all_iff)
  then have "list_all (\<lambda>x. 0 \<le> x) ?mid"
    by (auto simp: list_all_iff dest!: in_set_takeD in_set_dropD)
  then show "list_all (\<lambda>x. 0 \<le> x) pk"
    by (subst shape) (auto simp add: list_all_iff)
  have "sum_list pk = sum_list ?mid"
    by (subst shape) (simp add: sum_list_zeros)
  also have "\<dots> \<le> sum_list (rev (env_kernel a))"
    using rnn by (rule sum_list_slice_le)
  finally show "sum_list pk \<le> sum_list (env_kernel a)"
    by simp
qed

lemma positioned_kernel_sum_interior:
  assumes len: "length (env_signal a) = 100" "length (env_kernel a) = 15"
    and pos: "7 \<le> pos" "pos \<le> 92" and pk: "positioned_kernel a pos = Inr pk"
  shows "sum_list pk = sum_list (env_kernel a)"
proof -
  have p: "0 \<le> pos" "pos < 100" using pos by simp_all
  show ?thesis
    using pk positioned_kernel_regions(2)[OF len p pos]
    by (auto simp add: sum_list_zeros)
qed

lemma positioned_kernel_sum_edge_pos:
  assumes len: "length (env_signal a) = 100" "length (env_kernel a) = 15"
    and pos: "0 \<le> pos" "pos < 100" and edge: "pos < 7 \<or> 92 < pos"
    and pp: "list_all (\<lambda>x. 0 < x) (env_kernel a)"
    and pk: "positioned_kernel a pos = Inr pk"
  shows "sum_list pk < sum_list (env_kernel a)"
proof -
  have rpp: "list_all (\<lambda>x. 0 < x) (rev (env_kernel a))"
    using pp by (simp add: list_all_iff)
  have ne: "rev (env_kernel a) \<noteq> []" using len(2) by auto
  from edge show ?thesis
  proof
    assume l: "pos < 7"
    then have "0 < nat (7 - pos)" by simp
    from sum_list_drop_less[OF rpp this ne] pk positioned_kernel_regions(1)[OF len pos l]
    show ?thesis by (auto simp add: sum_list_zeros)
  next
    assume r: "92 < pos"
    then have "nat (107 - pos) < length (rev (env_kernel a))" using len(2) by simp
    from sum_list_take_less[OF rpp this] pk positioned_kernel_regions(3)[OF len pos r]
    show ?thesis by (auto simp add: sum_list_zeros)
  qed
qed

lemma rev_boxcar: "rev boxcar = replicate 6 0 @ replicate 9 (1 / 9)"
  by (simp add: boxcar_value)

lemma positioned_boxcar_sum:
  assumes len: "length (env_signal a) = 100" and k: "env_kernel a = boxcar"
    and pos: "0 \<le> pos" "pos < 100" and pk: "positioned_kernel a pos = Inr pk"
  shows "sum_list pk = 1 \<longleftrightarrow> 1 \<le> pos \<and> pos \<le> 92"
proof -
  have l15: "length (env_kernel a) = 15" by (simp add: k boxcar_length)
  consider "pos = 0" | "1 \<le> pos" "pos < 7" | "7 \<le> pos" "pos \<le> 92" | "92 < pos"
    using pos by linarith
  then show ?thesis
  proof cases
    case 1
    with pk positioned_kernel_regions(1)[OF len l15 pos] show ?thesis
      by (auto simp add: k rev_boxcar sum_list_replicate)
  next
    case 2
    then obtain j where j: "nat (7 - pos) = j" "j \<le> 6" by simp
    with 2 pk positioned_kernel_regions(1)[OF len l15 pos] show ?thesis
      by (auto simp add: k rev_boxcar sum_list_replicate)
  next
    case 3
    with positioned_kernel_sum_interior[OF len l15 3 pk] show ?thesis
      by (simp add: k boxcar_sum)
  next
    case 4
    then obtain m where m: "nat (107 - pos) = m" "8 \<le> m" "m \<le> 14" using pos by simp
    then have "min 9 (m - 6) = m - 6" "real (m - 6) \<noteq> 9" by auto
    with 4 m pk positioned_kernel_regions(3)[OF len l15 pos] show ?thesis
      by (auto simp add: k rev_boxcar sum_list_replicate)
  qed
qed


lemma frame_kernel_eq:
  "convolution_animation n k = Inr a \<Longrightarrow> frame_kernel n k pos = positioned_kernel a pos"
  by (simp add: frame_kernel_def)

text \<open>
  C10, as the code has it: at every frame \<open>pos\<close> in \<open>[0, 100)\<close> and for each of the three
  kernels the positioned kernel has only non-negative entries and its elements sum to at
  most the sum of the kernel, which is 1; the sum is 1 at every frame with
  \<open>7 \<le> pos \<le> 92\<close>. For the Gaussian and the exponential kernel, whose entries are all
  positive, the sum is 1 at exactly these frames. For the boxcar kernel, whose last six
  entries are zero, the sum is 1 at exactly the frames with \<open>1 \<le> pos \<le> 92\<close>: the
  truncation at the frames 1 to 6 cuts off zeros only.
\<close>

theorem positioned_kernel_mass:
  assumes "k = boxcar \<or> k = gaussian \<or> k = exponential" and "0 \<le> pos" and "pos < 100"
  shows "\<exists>pk. frame_kernel n k pos = Inr pk \<and> list_all (\<lambda>x. 0 \<le> x) pk \<and>
           sum_list k = 1 \<and> sum_list pk \<le> sum_list k \<and>
           (7 \<le> pos \<and> pos \<le> 92 \<longrightarrow> sum_list pk = 1) \<and>
           (k = gaussian \<or> k = exponential \<longrightarrow> (sum_list pk = 1 \<longleftrightarrow> 7 \<le> pos \<and> pos \<le> 92)) \<and>
           (k = boxcar \<longrightarrow> (sum_list pk = 1 \<longleftrightarrow> 1 \<le> pos \<and> pos \<le> 92))"
proof -
  from assms(1) have lk: "length k = 15" and nn: "list_all (\<lambda>x. 0 \<le> x) k"
    and sk: "sum_list k = 1"
    using boxcar_length gaussian_length exponential_length boxcar_nonneg boxcar_sum
      gaussian_sum exponential_sum all_pos_nonneg[OF gaussian_pos]
      all_pos_nonneg[OF exponential_pos]
    by auto
  from lk have "k \<noteq> []" by auto
  then obtain a where a: "convolution_animation n k = Inr a"
    using convolution_animation_Inr by blast
  have k: "env_kernel a = k"
    using convolution_animation_fields(2)[OF a] .
  have len: "length (env_signal a) = 100" "length (env_kernel a) = 15"
    using convolution_animation_lengths[OF a] lk k by simp_all
  obtain pk where pk: "positioned_kernel a pos = Inr pk"
    using positioned_kernel_shape[OF len assms(2,3)] by blast
  have fk: "frame_kernel n k pos = Inr pk"
    using frame_kernel_eq[OF a] pk by simp
  have nnpk: "list_all (\<lambda>x. 0 \<le> x) pk" and le: "sum_list pk \<le> sum_list k"
    using positioned_kernel_nonneg_le[OF len assms(2,3) _ pk] nn k by simp_all
  have inner: "sum_list pk = 1" if "7 \<le> pos" "pos \<le> 92"
    using positioned_kernel_sum_interior[OF len that pk] k sk by simp
  have strict: "sum_list pk = 1 \<longleftrightarrow> 7 \<le> pos \<and> pos \<le> 92" if "k = gaussian \<or> k = exponential"
  proof -
    from that have pp: "list_all (\<lambda>x. 0 < x) (env_kernel a)"
      using gaussian_pos exponential_pos k by auto
    have "sum_list pk \<noteq> 1" if "pos < 7 \<or> 92 < pos"
      using positioned_kernel_sum_edge_pos[OF len assms(2,3) that pp pk] k sk by simp
    with inner show ?thesis by force
  qed
  have box: "sum_list pk = 1 \<longleftrightarrow> 1 \<le> pos \<and> pos \<le> 92" if "k = boxcar"
    using positioned_boxcar_sum[OF len(1) _ assms(2,3) pk] k that by simp
  from fk nnpk sk le inner strict box show ?thesis
    by blast
qed

text \<open>The Gaussian kernel at the frames 0 and 50, the boxcar kernel at frame 99.\<close>

theorem positioned_kernel_mass_witness:
  "\<exists>pk0 pk50 pk99.
     frame_kernel ''Gaussian'' gaussian 0 = Inr pk0 \<and> sum_list pk0 \<le> 1 \<and> sum_list pk0 \<noteq> 1 \<and>
     frame_kernel ''Gaussian'' gaussian 50 = Inr pk50 \<and> sum_list pk50 = 1 \<and>
     frame_kernel ''Boxcar (Uniform)'' boxcar 99 = Inr pk99 \<and> sum_list pk99 \<noteq> 1 \<and>
     list_all (\<lambda>x. 0 \<le> x) pk99"
proof -
  obtain pk0 where "frame_kernel ''Gaussian'' gaussian 0 = Inr pk0"
    and "sum_list pk0 \<le> 1" and "sum_list pk0 \<noteq> 1"
    using positioned_kernel_mass[of gaussian 0 "''Gaussian''"] by auto
  moreover obtain pk50 where "frame_kernel ''Gaussian'' gaussian 50 = Inr pk50"
    and "sum_list pk50 = 1"
    using positioned_kernel_mass[of gaussian 50 "''Gaussian''"] by auto
  moreover obtain pk99 where "frame_kernel ''Boxcar (Uniform)'' boxcar 99 = Inr pk99"
    and "sum_list pk99 \<noteq> 1" and "list_all (\<lambda>x. 0 \<le> x) pk99"
    using positioned_kernel_mass[of boxcar 99 "''Boxcar (Uniform)''"] by auto
  ultimately show ?thesis by blast
qed

text \<open>
  At frame 1 the 15-wide window \<open>[-6, 9)\<close> does not lie inside the signal, and the positioned
  boxcar kernel still sums to 1: the equality of C10 is not confined to \<open>7 \<le> pos \<le> 92\<close>.
\<close>

theorem boxcar_mass_kept_at_frame_1:
  "frame_kernel ''Boxcar (Uniform)'' boxcar 1 = Inr (replicate 9 (1 / 9) @ replicate 91 0) \<and>
   sum_list (replicate 9 (1 / 9) @ replicate 91 (0::real)) = 1 \<and>
   \<not> (7 \<le> (1::int) \<and> (1::int) \<le> 92)"
proof -
  obtain a where a: "convolution_animation ''Boxcar (Uniform)'' boxcar = Inr a"
    using convolution_animation_Inr[of boxcar] boxcar_length by fastforce
  have k: "env_kernel a = boxcar"
    using convolution_animation_fields(2)[OF a] .
  have len: "length (env_signal a) = 100" "length (env_kernel a) = 15"
    using convolution_animation_lengths[OF a] boxcar_length k by simp_all
  have "positioned_kernel a 1 = Inr (replicate 9 (1 / 9) @ replicate 91 0)"
    using positioned_kernel_regions(1)[OF len, of 1] by (simp add: k rev_boxcar)
  then show ?thesis
    using frame_kernel_eq[OF a, of 1] by (simp add: sum_list_replicate)
qed


section \<open>Properties of the command line\<close>

lemma parse_loop_rejects:
  "v \<notin> set choices \<Longrightarrow> HelpOpt \<notin> set pre \<Longrightarrow>
     parse_loop c e (pre @ KernelOpt v # post) = UsageError"
proof (induction pre arbitrary: c e)
  case Nil
  then show ?case by simp
next
  case (Cons x xs)
  then show ?case by (cases x) auto
qed

lemma parse_loop_never_accepts:
  "v \<notin> set choices \<Longrightarrow>
     parse_loop c e (pre @ KernelOpt v # post) = UsageError \<or>
     parse_loop c e (pre @ KernelOpt v # post) = HelpExit"
proof (induction pre arbitrary: c e)
  case Nil
  then show ?case by simp
next
  case (Cons x xs)
  then show ?case by (cases x) auto
qed

lemma parse_loop_accepts_choice:
  "parse_loop c e argv = Namespace v \<Longrightarrow> c = Some v \<or> v \<in> set choices"
proof (induction c e argv rule: parse_loop.induct)
  case (1 chosen extras)
  then show ?case by (auto split: option.splits if_splits)
next
  case (3 chosen extras w rest)
  then show ?case by (auto split: if_splits)
qed auto

lemma main_accepts:
  assumes "v \<in> set choices"
  shows "main [KernelOpt v] = (0, [CreateData, BuildAnimation, Show])"
proof -
  obtain s where s: "signal = Inr s"
    using signal_value by blast
  have cd: "create_demo_data = Inr (s, kernels)"
    unfolding create_demo_data_def s by simp
  from assms obtain name k where nk: "map_of kernel_map v = Some name"
    "map_of kernels name = Some k" "length k = 15"
    by (auto simp: choices_def kernel_map_def kernels_def boxcar_length gaussian_length
        exponential_length)
  then have "k \<noteq> []" by auto
  then obtain a where a: "convolution_animation name k = Inr a"
    using convolution_animation_Inr by blast
  show ?thesis
    using assms by (simp add: main_def parse_args_def cd nk a)
qed

text \<open>
  C8: the parser accepts a value for the kernel option exactly when it is one of
  \<open>boxcar\<close>, \<open>gaussian\<close>, \<open>exponential\<close>, and then the script computes and shows the
  animation. Any other value is rejected: the command line \<^verbatim>\<open>--kernel v\<close> ends with the
  usage message and exit status 2, and so does every command line in which the parser
  reaches such a value (no help option stands before it); whatever surrounds the value,
  the script neither generates data nor builds or shows the animation.
\<close>

theorem kernel_choice_enforced:
  "(parse_args argv = Namespace v \<longrightarrow> v \<in> {''boxcar'', ''gaussian'', ''exponential''}) \<and>
   (parse_args [KernelOpt v] = Namespace v \<longleftrightarrow> v \<in> {''boxcar'', ''gaussian'', ''exponential''}) \<and>
   (v \<in> {''boxcar'', ''gaussian'', ''exponential''} \<longrightarrow>
      main [KernelOpt v] = (0, [CreateData, BuildAnimation, Show])) \<and>
   (v \<notin> {''boxcar'', ''gaussian'', ''exponential''} \<longrightarrow>
      main [KernelOpt v] = (2, [PrintUsage]) \<and>
      snd (main (pre @ KernelOpt v # post)) \<in> {[PrintUsage], [PrintHelp]} \<and>
      (HelpOpt \<notin> set pre \<longrightarrow> main (pre @ KernelOpt v # post) = (2, [PrintUsage])))"
proof -
  have ch: "set choices = {''boxcar'', ''gaussian'', ''exponential''}"
    by (auto simp: choices_def)
  have 1: "v \<in> set choices" if "parse_args argv = Namespace v"
    using parse_loop_accepts_choice[of None False argv v] that by (simp add: parse_args_def)
  have 2: "parse_args [KernelOpt v] = Namespace v \<longleftrightarrow> v \<in> set choices"
    by (simp add: parse_args_def)
  have 3: "main [KernelOpt v] = (0, [CreateData, BuildAnimation, Show])" if "v \<in> set choices"
    using main_accepts[OF that] .
  have 4: "snd (main (pre @ KernelOpt v # post)) \<in> {[PrintUsage], [PrintHelp]}"
    if "v \<notin> set choices"
    using parse_loop_never_accepts[OF that, of None False pre post]
    by (auto simp add: main_def parse_args_def)
  have 5: "main (pre @ KernelOpt v # post) = (2, [PrintUsage])"
    if "v \<notin> set choices" "HelpOpt \<notin> set pre"
    using parse_loop_rejects[OF that, of None False post]
    by (simp add: main_def parse_args_def)
  have 6: "main [KernelOpt v] = (2, [PrintUsage])" if "v \<notin> set choices"
    using that by (simp add: main_def parse_args_def)
  from 1 2 3 4 5 6 show ?thesis
    unfolding ch by blast
qed

text \<open>The value \<open>unknown\<close> is rejected, the value \<open>gaussian\<close> runs the animation.\<close>

theorem kernel_choice_enforced_witness:
  "''unknown'' \<notin> {''boxcar'', ''gaussian'', ''exponential''} \<and>
   main [KernelOpt ''unknown''] = (2, [PrintUsage]) \<and>
   main [Unrecognized ''x'', KernelOpt ''unknown'', HelpOpt] = (2, [PrintUsage]) \<and>
   parse_args [KernelOpt ''gaussian''] = Namespace ''gaussian'' \<and>
   main [KernelOpt ''gaussian''] = (0, [CreateData, BuildAnimation, Show])"
proof -
  have u: "''unknown'' \<notin> {''boxcar'', ''gaussian'', ''exponential''}" by simp
  have g: "''gaussian'' \<in> {''boxcar'', ''gaussian'', ''exponential''}" by simp
  have "main [KernelOpt ''unknown''] = (2, [PrintUsage])"
    using kernel_choice_enforced[of _ "''unknown''" "[]" "[]"] u by simp
  moreover have "main [Unrecognized ''x'', KernelOpt ''unknown'', HelpOpt] = (2, [PrintUsage])"
    using kernel_choice_enforced[of _ "''unknown''" "[Unrecognized ''x'']" "[HelpOpt]"] u by simp
  moreover have "parse_args [KernelOpt ''gaussian''] = Namespace ''gaussian''"
    and "main [KernelOpt ''gaussian''] = (0, [CreateData, BuildAnimation, Show])"
    using kernel_choice_enforced[of _ "''gaussian''"] g by simp_all
  ultimately show ?thesis using u by (intro conjI)
qed

end
